theory Spec2Isabelle
  imports Complex_Main "HOL-Library.Word" "HOL-Library.Multiset"
begin

unbundle bit_operations_syntax

section \<open>The two-bit compressor of \<^verbatim>\<open>src/twoBitCompressor.cpp\<close>\<close>

text \<open>
  The source is one function,
  \<^verbatim>\<open>void twoBitCompress(char* seq, size_t seqLen, uint32_t* compressedSeq)\<close>.
  Its integers are machine integers: \<^verbatim>\<open>size_t\<close> is a 64-bit word and
  \<^verbatim>\<open>uint32_t\<close> a 32-bit word, and every \<open>+\<close>, \<open>*\<close> and \<open>div\<close> below is the word
  operation, wrapping as the C++ one does.
\<close>

type_synonym size_t = "64 word"
type_synonym uint32_t = "32 word"

subsection \<open>Memory and undefined behaviour\<close>

text \<open>
  The two buffers the pointers \<^verbatim>\<open>seq\<close> and \<^verbatim>\<open>compressedSeq\<close> refer to are two
  separate arrays. The third field records, in program order, every access the function
  makes to them and every left shift it executes; it exists only to state properties of
  the run and never influences it.
\<close>

datatype event =
    SeqRead nat                     \<comment> \<open>a read of \<^verbatim>\<open>seq[j]\<close>\<close>
  | OutRead nat                     \<comment> \<open>a read of \<^verbatim>\<open>compressedSeq[i]\<close>\<close>
  | OutWrite nat                    \<comment> \<open>a write of \<^verbatim>\<open>compressedSeq[i]\<close>\<close>
  | Shift nat nat uint32_t nat      \<comment> \<open>in word \<open>i\<close>, at position \<open>j\<close>: \<^verbatim>\<open>twoBitVal << shift\<close>\<close>

record memory =
  seq_buf :: "char list"
  compressedSeq_buf :: "uint32_t list"
  trace :: "event list"

text \<open>
  An access beyond the end of a buffer and a shift of a 32-bit value by 32 or more are
  undefined behaviour in C++; the model stops with a fault there.
\<close>

datatype fault =
    SeqOutOfBounds nat
  | OutOutOfBounds nat
  | ShiftOutOfRange nat

subsection \<open>The function\<close>

text \<open>The \<^verbatim>\<open>switch(seq[j])\<close>, with its \<^verbatim>\<open>default\<close> branch.\<close>

definition twoBitVal :: "char \<Rightarrow> uint32_t" where
  "twoBitVal c =
     (if c = CHR ''A'' then 0
      else if c = CHR ''C'' then 1
      else if c = CHR ''G'' then 2
      else if c = CHR ''T'' then 3
      else 0)"

text \<open>
  One pass through the body of the inner loop:
  \<^verbatim>\<open>switch(seq[j]) {...}  compressedSeq[i] |= (twoBitVal << shift);\<close>
\<close>

definition inner_body :: "size_t \<Rightarrow> size_t \<Rightarrow> uint32_t \<Rightarrow> memory \<Rightarrow> fault + memory" where
  "inner_body i j shift m =
     (if \<not> unat j < length (seq_buf m) then Inl (SeqOutOfBounds (unat j))
      else if \<not> unat shift < 32 then Inl (ShiftOutOfRange (unat shift))
      else if \<not> unat i < length (compressedSeq_buf m) then Inl (OutOutOfBounds (unat i))
      else
        let v = twoBitVal (seq_buf m ! unat j);
            old = compressedSeq_buf m ! unat i
        in Inr (m\<lparr>compressedSeq_buf := (compressedSeq_buf m)[unat i := old OR push_bit (unat shift) v],
                  trace := trace m @ [SeqRead (unat j), Shift (unat i) (unat j) v (unat shift),
                                      OutRead (unat i), OutWrite (unat i)]\<rparr>))"

text \<open>
  \<^verbatim>\<open>for (auto j=start; j<end; j++) { ...; shift += 2; }\<close> with \<open>j\<close> of type
  \<^verbatim>\<open>size_t\<close> and \<open>shift\<close> of type \<^verbatim>\<open>uint32_t\<close>.
\<close>

function inner_loop :: "size_t \<Rightarrow> size_t \<Rightarrow> size_t \<Rightarrow> uint32_t \<Rightarrow> memory \<Rightarrow> fault + memory" where
  "inner_loop i endj j shift m =
     (if j < endj then
        (case inner_body i j shift m of
           Inl e \<Rightarrow> Inl e
         | Inr m' \<Rightarrow> inner_loop i endj (j + 1) (shift + 2) m')
      else Inr m)"
  by pat_completeness auto
termination
proof (relation "measure (\<lambda>(i, endj, j, shift, m). unat endj - unat j)")
  show "wf (measure (\<lambda>(i, endj, j, shift, m). unat endj - unat j))"
    by simp
next
  fix i endj j :: size_t and shift :: uint32_t and m m' :: memory
  assume "j < endj"
  then have below: "unat j < unat endj"
    by (simp add: word_less_nat_alt)
  moreover have "unat endj < 2 ^ 64"
    using unsigned_less [of endj] by simp
  ultimately have "unat (j + 1) = unat j + 1"
    by (simp add: unat_word_ariths)
  with below show "((i, endj, j + 1, shift + 2, m'), (i, endj, j, shift, m))
      \<in> measure (\<lambda>(i, endj, j, shift, m). unat endj - unat j)"
    by simp
qed

declare inner_loop.simps [simp del]

text \<open>
  The lambda handed to \<^verbatim>\<open>tbb::parallel_for\<close>: it captures \<^verbatim>\<open>seqLen\<close> and the two
  pointers by value and handles the word with index \<open>i\<close>.
\<close>

definition lambda_body :: "size_t \<Rightarrow> size_t \<Rightarrow> memory \<Rightarrow> fault + memory" where
  "lambda_body seqLen i m =
     (if \<not> unat i < length (compressedSeq_buf m) then Inl (OutOutOfBounds (unat i))
      else
        let m0 = m\<lparr>compressedSeq_buf := (compressedSeq_buf m)[unat i := 0],
                    trace := trace m @ [OutWrite (unat i)]\<rparr>;
            start = 16 * i;
            endj = min seqLen (start + 16)
        in inner_loop i endj start 0 m0)"

text \<open>
  \<^verbatim>\<open>tbb::parallel_for(first, bound, f)\<close> calls \<open>f\<close> once for every index of
  \<open>[first, bound)\<close>, in an order it chooses. A schedule is one such order;
  \<open>run_schedule\<close> executes the calls of a schedule one after the other.
\<close>

definition index_range :: "size_t \<Rightarrow> size_t \<Rightarrow> size_t list" where
  "index_range first bound = map of_nat [unat first ..< unat bound]"

definition is_schedule :: "size_t \<Rightarrow> size_t \<Rightarrow> size_t list \<Rightarrow> bool" where
  "is_schedule first bound sched \<longleftrightarrow> mset sched = mset (index_range first bound)"

fun run_schedule :: "size_t list \<Rightarrow> (size_t \<Rightarrow> memory \<Rightarrow> fault + memory) \<Rightarrow> memory \<Rightarrow> fault + memory" where
  "run_schedule [] f m = Inr m"
| "run_schedule (i # sched) f m =
     (case f i m of
        Inl e \<Rightarrow> Inl e
      | Inr m' \<Rightarrow> run_schedule sched f m')"

text \<open>\<^verbatim>\<open>size_t compressedSeqLen = (seqLen+15)/16;\<close>\<close>

definition compressedSeqLen :: "size_t \<Rightarrow> size_t" where
  "compressedSeqLen seqLen = (seqLen + 15) div 16"

text \<open>
  The function under a given schedule of the outer iterations, and the function with the
  iterations in increasing order.
\<close>

definition twoBitCompress_sched ::
    "size_t list \<Rightarrow> char list \<Rightarrow> size_t \<Rightarrow> uint32_t list \<Rightarrow> fault + memory" where
  "twoBitCompress_sched sched seq seqLen compressedSeq =
     run_schedule sched (lambda_body seqLen)
       \<lparr>seq_buf = seq, compressedSeq_buf = compressedSeq, trace = []\<rparr>"

definition twoBitCompress :: "char list \<Rightarrow> size_t \<Rightarrow> uint32_t list \<Rightarrow> fault + memory" where
  "twoBitCompress seq seqLen compressedSeq =
     twoBitCompress_sched (index_range 0 (compressedSeqLen seqLen)) seq seqLen compressedSeq"

subsection \<open>What a call is given and what is observed of it\<close>

text \<open>
  The number of words the specification speaks of, \<open>ceil(seqLen/16)\<close>, as a rounded-up
  quotient of real numbers; \<open>compressedSeqLen\<close> above is what the code computes.
\<close>

definition numWords :: "nat \<Rightarrow> nat" where
  "numWords n = nat \<lceil>real n / 16\<rceil>"

text \<open>
  The caller's side of the contract: \<^verbatim>\<open>seq\<close> holds \<^verbatim>\<open>seqLen\<close> symbols and
  \<^verbatim>\<open>compressedSeq\<close> has \<open>ceil(seqLen/16)\<close> words.
\<close>

definition buffers_ok :: "char list \<Rightarrow> size_t \<Rightarrow> uint32_t list \<Rightarrow> bool" where
  "buffers_ok seq seqLen compressedSeq \<longleftrightarrow>
     length seq = unat seqLen \<and> length compressedSeq = numWords (unat seqLen)"

text \<open>
  How often a run that returned wrote \<^verbatim>\<open>compressedSeq[i]\<close>. A run that stopped with a
  fault has no trace left to count in; the number is 0 there by convention.
\<close>

definition write_count :: "fault + memory \<Rightarrow> nat \<Rightarrow> nat" where
  "write_count r i = (case r of Inl e \<Rightarrow> 0 | Inr m \<Rightarrow> count_list (trace m) (OutWrite i))"

subsection \<open>Closed forms used in the proofs\<close>

text \<open>
  The value the inner loop builds from the codes of one word, lowest bits first, and the
  events it leaves behind; then the symbols, the events and the value of the word with
  index \<open>k\<close> of a sequence whose first \<open>n\<close> symbols are encoded.
\<close>

fun pack :: "uint32_t list \<Rightarrow> uint32_t" where
  "pack [] = 0"
| "pack (v # vs) = v OR push_bit 2 (pack vs)"

fun inner_events :: "nat \<Rightarrow> nat \<Rightarrow> nat \<Rightarrow> char list \<Rightarrow> event list" where
  "inner_events i j s [] = []"
| "inner_events i j s (c # cs) =
     [SeqRead j, Shift i j (twoBitVal c) s, OutRead i, OutWrite i] @ inner_events i (Suc j) (s + 2) cs"

definition word_symbols :: "char list \<Rightarrow> nat \<Rightarrow> nat \<Rightarrow> char list" where
  "word_symbols seq n k = take (min n (16 * k + 16) - 16 * k) (drop (16 * k) seq)"

definition word_events :: "char list \<Rightarrow> nat \<Rightarrow> nat \<Rightarrow> event list" where
  "word_events seq n k = OutWrite k # inner_events k (16 * k) 0 (word_symbols seq n k)"

definition packed_word :: "char list \<Rightarrow> nat \<Rightarrow> nat \<Rightarrow> uint32_t" where
  "packed_word seq n k = pack (map twoBitVal (word_symbols seq n k))"

section \<open>The run of the function in closed form\<close>

subsection \<open>The inner loop\<close>

lemma unat_succ_below:
  fixes j endj :: size_t
  assumes "unat j < unat endj"
  shows "unat (j + 1) = Suc (unat j)"
proof -
  have "unat endj < 2 ^ 64"
    using unsigned_less [of endj] by simp
  with assms show ?thesis
    by (simp add: unat_word_ariths)
qed

lemma unat_shift_step: "unat shift \<le> 30 \<Longrightarrow> unat (shift + 2) = unat shift + 2" for shift :: uint32_t
  by (simp add: unat_word_ariths)

lemma inner_loop_run:
  assumes "unat j + length cs = unat endj"
    and "unat endj \<le> length (seq_buf m)"
    and "cs = take (length cs) (drop (unat j) (seq_buf m))"
    and "unat i < length (compressedSeq_buf m)"
    and "unat shift + 2 * length cs \<le> 32"
  shows "inner_loop i endj j shift m =
    Inr (m\<lparr>compressedSeq_buf := (compressedSeq_buf m)
              [unat i := compressedSeq_buf m ! unat i OR push_bit (unat shift) (pack (map twoBitVal cs))],
            trace := trace m @ inner_events (unat i) (unat j) (unat shift) cs\<rparr>)"
  using assms
proof (induction cs arbitrary: j shift m)
  case Nil
  then have "\<not> j < endj"
    by (simp add: word_less_nat_alt)
  then show ?case
    by (simp add: inner_loop.simps)
next
  case (Cons c cs)
  let ?i = "unat i" and ?s = "unat shift"
  have lt: "unat j < unat endj" and jlen: "unat j < length (seq_buf m)"
    using Cons.prems by simp_all
  then have jend: "j < endj"
    by (simp add: word_less_nat_alt)
  have j1: "unat (j + 1) = Suc (unat j)"
    using lt by (rule unat_succ_below)
  have s30: "?s \<le> 30"
    using Cons.prems(5) by simp
  then have s1: "unat (shift + 2) = ?s + 2" and s32: "?s < 32"
    by (simp_all add: unat_shift_step)
  have dr: "drop (unat j) (seq_buf m) = seq_buf m ! unat j # drop (Suc (unat j)) (seq_buf m)"
    using jlen by (simp add: Cons_nth_drop_Suc)
  have c: "c = seq_buf m ! unat j" and cs: "cs = take (length cs) (drop (Suc (unat j)) (seq_buf m))"
    using Cons.prems(3) dr by simp_all
  define m1 where "m1 = m\<lparr>compressedSeq_buf := (compressedSeq_buf m)
        [?i := compressedSeq_buf m ! ?i OR push_bit ?s (twoBitVal c)],
      trace := trace m @ [SeqRead (unat j), Shift ?i (unat j) (twoBitVal c) ?s, OutRead ?i, OutWrite ?i]\<rparr>"
  have body: "inner_body i j shift m = Inr m1"
    using jlen s32 Cons.prems(4) by (simp add: inner_body_def m1_def c Let_def)
  have "inner_loop i endj (j + 1) (shift + 2) m1 =
    Inr (m1\<lparr>compressedSeq_buf := (compressedSeq_buf m1)
              [?i := compressedSeq_buf m1 ! ?i OR push_bit (unat (shift + 2)) (pack (map twoBitVal cs))],
            trace := trace m1 @ inner_events ?i (unat (j + 1)) (unat (shift + 2)) cs\<rparr>)"
  proof (rule Cons.IH)
    show "unat (j + 1) + length cs = unat endj"
      using Cons.prems(1) j1 by simp
    show "unat endj \<le> length (seq_buf m1)"
      using Cons.prems(2) by (simp add: m1_def)
    show "cs = take (length cs) (drop (unat (j + 1)) (seq_buf m1))"
      using cs j1 by (simp add: m1_def)
    show "?i < length (compressedSeq_buf m1)"
      using Cons.prems(4) by (simp add: m1_def)
    show "unat (shift + 2) + 2 * length cs \<le> 32"
      using Cons.prems(5) s1 by simp
  qed
  moreover have "inner_loop i endj j shift m = inner_loop i endj (j + 1) (shift + 2) m1"
    using jend body by (subst inner_loop.simps) simp
  ultimately show ?case
    using Cons.prems(4)
    by (simp add: m1_def j1 s1 push_bit_add or.assoc)
qed

subsection \<open>One outer iteration\<close>

lemma length_word_symbols:
  "n \<le> length seq \<Longrightarrow> length (word_symbols seq n k) = min n (16 * k + 16) - 16 * k"
  by (auto simp: word_symbols_def)

lemma unat_compressedSeqLen:
  assumes "unat seqLen + 15 < 2 ^ 64"
  shows "unat (compressedSeqLen seqLen) = (unat seqLen + 15) div 16"
proof -
  have "unat (seqLen + 15) = unat seqLen + 15"
    using assms by (simp add: unat_word_ariths)
  then show ?thesis
    by (simp add: compressedSeqLen_def unat_div)
qed

lemma unat_word_start:
  fixes i seqLen :: size_t
  assumes "unat seqLen + 15 < 2 ^ 64" and "unat i < (unat seqLen + 15) div 16"
  shows "unat (16 * i) = 16 * unat i"
    and "unat (16 * i + 16) = 16 * unat i + 16"
    and "unat (min seqLen (16 * i + 16)) = min (unat seqLen) (16 * unat i + 16)"
    and "16 * unat i < unat seqLen"
proof -
  have bound: "16 * unat i + 16 < 2 ^ 64" and below: "16 * unat i < unat seqLen"
    using assms by simp_all
  then show start: "unat (16 * i) = 16 * unat i"
    by (simp add: unat_word_ariths)
  then show fin: "unat (16 * i + 16) = 16 * unat i + 16"
    using bound by (simp add: unat_word_ariths)
  show "unat (min seqLen (16 * i + 16)) = min (unat seqLen) (16 * unat i + 16)"
    using fin by (simp add: min_def word_le_nat_alt)
  show "16 * unat i < unat seqLen"
    by (rule below)
qed

lemma lambda_body_run:
  assumes nowrap: "unat seqLen + 15 < 2 ^ 64"
    and i: "unat i < (unat seqLen + 15) div 16"
    and seq: "unat seqLen \<le> length (seq_buf m)"
    and out: "unat i < length (compressedSeq_buf m)"
  shows "lambda_body seqLen i m =
    Inr (m\<lparr>compressedSeq_buf := (compressedSeq_buf m)
              [unat i := packed_word (seq_buf m) (unat seqLen) (unat i)],
            trace := trace m @ word_events (seq_buf m) (unat seqLen) (unat i)\<rparr>)"
proof -
  let ?cs = "word_symbols (seq_buf m) (unat seqLen) (unat i)"
  let ?m0 = "m\<lparr>compressedSeq_buf := (compressedSeq_buf m)[unat i := 0],
               trace := trace m @ [OutWrite (unat i)]\<rparr>"
  note w = unat_word_start [OF nowrap i]
  have len: "length ?cs = min (unat seqLen) (16 * unat i + 16) - 16 * unat i"
    using seq by (rule length_word_symbols)
  have "inner_loop i (min seqLen (16 * i + 16)) (16 * i) 0 ?m0 =
    Inr (?m0\<lparr>compressedSeq_buf := (compressedSeq_buf ?m0)
              [unat i := compressedSeq_buf ?m0 ! unat i OR
                 push_bit (unat (0 :: uint32_t)) (pack (map twoBitVal ?cs))],
            trace := trace ?m0 @ inner_events (unat i) (unat (16 * i)) (unat (0 :: uint32_t)) ?cs\<rparr>)"
  proof (rule inner_loop_run)
    show "unat (16 * i) + length ?cs = unat (min seqLen (16 * i + 16))"
      using w len by simp
    show "unat (min seqLen (16 * i + 16)) \<le> length (seq_buf ?m0)"
      using w seq by simp
    show "?cs = take (length ?cs) (drop (unat (16 * i)) (seq_buf ?m0))"
      using w len by (simp add: word_symbols_def)
    show "unat i < length (compressedSeq_buf ?m0)"
      using out by simp
    show "unat (0 :: uint32_t) + 2 * length ?cs \<le> 32"
      using len by simp
  qed
  then show ?thesis
    using out w by (simp add: lambda_body_def Let_def packed_word_def word_events_def)
qed

subsection \<open>A schedule of outer iterations\<close>

lemma run_schedule_run:
  assumes nowrap: "unat seqLen + 15 < 2 ^ 64"
    and seq: "unat seqLen \<le> length (seq_buf m)"
    and sched: "\<forall>i\<in>set sched. unat i < (unat seqLen + 15) div 16 \<and> unat i < length (compressedSeq_buf m)"
  shows "run_schedule sched (lambda_body seqLen) m =
    Inr (m\<lparr>compressedSeq_buf :=
              fold (\<lambda>i buf. buf[unat i := packed_word (seq_buf m) (unat seqLen) (unat i)]) sched
                (compressedSeq_buf m),
            trace := trace m @ concat (map (\<lambda>i. word_events (seq_buf m) (unat seqLen) (unat i)) sched)\<rparr>)"
  using seq sched
proof (induction sched arbitrary: m)
  case Nil
  show ?case by simp
next
  case (Cons i sched)
  let ?m1 = "m\<lparr>compressedSeq_buf := (compressedSeq_buf m)
                [unat i := packed_word (seq_buf m) (unat seqLen) (unat i)],
              trace := trace m @ word_events (seq_buf m) (unat seqLen) (unat i)\<rparr>"
  have "lambda_body seqLen i m = Inr ?m1"
    using nowrap Cons.prems by (intro lambda_body_run) simp_all
  moreover have "run_schedule sched (lambda_body seqLen) ?m1 =
    Inr (?m1\<lparr>compressedSeq_buf :=
              fold (\<lambda>i buf. buf[unat i := packed_word (seq_buf ?m1) (unat seqLen) (unat i)]) sched
                (compressedSeq_buf ?m1),
            trace := trace ?m1 @ concat (map (\<lambda>i. word_events (seq_buf ?m1) (unat seqLen) (unat i)) sched)\<rparr>)"
    using Cons.prems by (intro Cons.IH) simp_all
  ultimately show ?case
    by simp
qed

lemma length_fold_update:
  "length (fold (\<lambda>i buf. buf[f i := g (f i)]) sched buf) = length buf"
  by (induction sched arbitrary: buf) simp_all

lemma nth_fold_update:
  "k < length buf \<Longrightarrow>
    fold (\<lambda>i buf. buf[f i := g (f i)]) sched buf ! k = (if k \<in> f ` set sched then g k else buf ! k)"
  by (induction sched arbitrary: buf) (auto simp: nth_list_update)

subsection \<open>The bits of a packed word\<close>

lemma twoBitVal_cases: "twoBitVal c = 0 \<or> twoBitVal c = 1 \<or> twoBitVal c = 2 \<or> twoBitVal c = 3"
  by (simp add: twoBitVal_def)

lemma bit_twoBitVal: "bit (twoBitVal c) n \<Longrightarrow> n < 2"
proof -
  assume b: "bit (twoBitVal c) n"
  have "take_bit 2 (twoBitVal c) = twoBitVal c"
    using twoBitVal_cases [of c] by auto
  then have "bit (take_bit 2 (twoBitVal c)) n"
    using b by simp
  then show "n < 2"
    by (simp add: bit_take_bit_iff)
qed

lemma bit_pack_iff:
  assumes "\<forall>v\<in>set vs. \<forall>n. bit v n \<longrightarrow> n < 2"
  shows "bit (pack vs) n \<longleftrightarrow> n < 32 \<and> n div 2 < length vs \<and> bit (vs ! (n div 2)) (n mod 2)"
  using assms
proof (induction vs arbitrary: n)
  case Nil
  show ?case by simp
next
  case (Cons v vs)
  have low: "bit v k \<Longrightarrow> k < 2" for k
    using Cons.prems by simp
  have IH: "bit (pack vs) k \<longleftrightarrow> k < 32 \<and> k div 2 < length vs \<and> bit (vs ! (k div 2)) (k mod 2)" for k
    using Cons.prems by (intro Cons.IH) simp
  show ?case
  proof (cases "n < 2")
    case True
    then have "n div 2 = 0" and "n mod 2 = n"
      by simp_all
    with True show ?thesis
      by (simp add: bit_or_iff bit_push_bit_iff)
  next
    case False
    then have d: "n div 2 = Suc ((n - 2) div 2)" and md: "(n - 2) mod 2 = n mod 2"
      by presburger+
    have "\<not> bit v n"
      using False low by blast
    then show ?thesis
      using False by (auto simp add: bit_or_iff bit_push_bit_iff IH d md dest: bit_imp_le_length)
  qed
qed

lemma bit_pack_twoBitVal_iff:
  "bit (pack (map twoBitVal cs)) n \<longleftrightarrow>
     n < 32 \<and> n div 2 < length cs \<and> bit (twoBitVal (cs ! (n div 2))) (n mod 2)"
  by (subst bit_pack_iff) (auto dest: bit_twoBitVal)

lemma field_of_pack:
  assumes "k < length cs" and "k < 16"
  shows "take_bit 2 (drop_bit (2 * k) (pack (map twoBitVal cs))) = twoBitVal (cs ! k)"
proof (rule bit_eqI)
  fix n
  show "bit (take_bit 2 (drop_bit (2 * k) (pack (map twoBitVal cs)))) n \<longleftrightarrow> bit (twoBitVal (cs ! k)) n"
  proof (cases "n < 2")
    case True
    then have "(2 * k + n) div 2 = k" and "(2 * k + n) mod 2 = n" and "2 * k + n < 32"
      using assms(2) by simp_all
    with True assms(1) show ?thesis
      by (simp add: bit_take_bit_iff bit_drop_bit_eq bit_pack_twoBitVal_iff)
  next
    case False
    then show ?thesis
      by (auto simp add: bit_take_bit_iff dest: bit_twoBitVal)
  qed
qed

lemma pack_high_bits:
  "2 * length cs \<le> n \<Longrightarrow> \<not> bit (pack (map twoBitVal cs)) n"
  by (auto simp add: bit_pack_twoBitVal_iff)

subsection \<open>The number of words, the index range and the whole call\<close>

lemma numWords_eq: "numWords n = (n + 15) div 16"
proof -
  have "\<lceil>real n / 16\<rceil> = int ((n + 15) div 16)"
    by linarith
  then show ?thesis
    by (simp add: numWords_def)
qed

lemma compressedSeqLen_wrap:
  assumes "\<not> unat seqLen + 15 < 2 ^ 64"
  shows "compressedSeqLen seqLen = 0"
proof -
  have "unat seqLen < 2 ^ 64"
    using unsigned_less [of seqLen] by simp
  with assms have "unat (seqLen + 15) = unat seqLen + 15 - 2 ^ 64"
    by (simp add: unat_word_ariths mod_if)
  then have "unat (seqLen + 15) < 16"
    using \<open>unat seqLen < 2 ^ 64\<close> by simp
  then have "unat ((seqLen + 15) div 16) = 0"
    by (simp add: unat_div)
  then show ?thesis
    by (simp add: compressedSeqLen_def unat_eq_zero)
qed

lemma unat_of_nat_below:
  fixes b :: size_t
  assumes "k < unat b"
  shows "unat (of_nat k :: size_t) = k"
proof -
  have "unat b < 2 ^ 64"
    using unsigned_less [of b] by simp
  with assms show ?thesis
    by (simp add: unat_of_nat)
qed

lemma map_unat_index_range: "map unat (index_range 0 b) = [0..<unat b]"
proof -
  have "map (\<lambda>k. unat (of_nat k :: size_t)) [0..<unat b] = map (\<lambda>k. k) [0..<unat b]"
    by (rule map_cong) (simp_all add: unat_of_nat_below)
  then show ?thesis
    by (simp add: index_range_def comp_def)
qed

lemma set_unat_index_range: "unat ` set (index_range 0 b) = {..<unat b}"
proof -
  have "unat ` set (index_range 0 b) = set (map unat (index_range 0 b))"
    by simp
  also have "\<dots> = {..<unat b}"
    by (simp only: map_unat_index_range) auto
  finally show ?thesis .
qed

lemma unat_compressedSeqLen_le: "unat (compressedSeqLen seqLen) \<le> numWords (unat seqLen)"
proof (cases "unat seqLen + 15 < 2 ^ 64")
  case True
  then show ?thesis
    by (simp add: unat_compressedSeqLen numWords_eq)
next
  case False
  then show ?thesis
    by (simp add: compressedSeqLen_wrap)
qed

lemma below_compressedSeqLen:
  assumes "k < unat (compressedSeqLen seqLen)"
  shows "unat seqLen + 15 < 2 ^ 64" and "k < (unat seqLen + 15) div 16"
proof -
  show nowrap: "unat seqLen + 15 < 2 ^ 64"
    using assms by (rule contrapos_pp) (simp add: compressedSeqLen_wrap)
  then show "k < (unat seqLen + 15) div 16"
    using assms by (simp add: unat_compressedSeqLen)
qed

lemma twoBitCompress_sched_run:
  assumes seq: "unat seqLen \<le> length seq"
    and out: "unat (compressedSeqLen seqLen) \<le> length out"
    and sched: "unat ` set sched \<subseteq> {..<unat (compressedSeqLen seqLen)}"
  shows "twoBitCompress_sched sched seq seqLen out =
    Inr \<lparr>seq_buf = seq,
         compressedSeq_buf = fold (\<lambda>i buf. buf[unat i := packed_word seq (unat seqLen) (unat i)]) sched out,
         trace = concat (map (\<lambda>i. word_events seq (unat seqLen) (unat i)) sched)\<rparr>"
proof (cases "sched = []")
  case True
  then show ?thesis
    by (simp add: twoBitCompress_sched_def)
next
  case False
  then obtain i where "i \<in> set sched"
    by (cases sched) auto
  with sched have "unat i < unat (compressedSeqLen seqLen)"
    by auto
  then have nowrap: "unat seqLen + 15 < 2 ^ 64"
    by (rule below_compressedSeqLen)
  let ?m = "\<lparr>seq_buf = seq, compressedSeq_buf = out, trace = []\<rparr>"
  have "run_schedule sched (lambda_body seqLen) ?m =
    Inr (?m\<lparr>compressedSeq_buf :=
              fold (\<lambda>i buf. buf[unat i := packed_word (seq_buf ?m) (unat seqLen) (unat i)]) sched
                (compressedSeq_buf ?m),
            trace := trace ?m @ concat (map (\<lambda>i. word_events (seq_buf ?m) (unat seqLen) (unat i)) sched)\<rparr>)"
  proof (rule run_schedule_run [OF nowrap])
    show "unat seqLen \<le> length (seq_buf ?m)"
      using seq by simp
    show "\<forall>i\<in>set sched. unat i < (unat seqLen + 15) div 16 \<and> unat i < length (compressedSeq_buf ?m)"
      using sched out nowrap by (auto simp: unat_compressedSeqLen)
  qed
  then show ?thesis
    by (simp add: twoBitCompress_sched_def)
qed

subsection \<open>The events of one word\<close>

lemma SeqRead_inner_events:
  "SeqRead x \<in> set (inner_events i j s cs) \<longleftrightarrow> j \<le> x \<and> x < j + length cs"
  by (induction cs arbitrary: j s) auto

lemma OutRead_inner_events:
  "OutRead x \<in> set (inner_events i j s cs) \<longleftrightarrow> x = i \<and> cs \<noteq> []"
  by (induction cs arbitrary: j s) auto

lemma OutWrite_inner_events:
  "OutWrite x \<in> set (inner_events i j s cs) \<longleftrightarrow> x = i \<and> cs \<noteq> []"
  by (induction cs arbitrary: j s) auto

lemma Shift_inner_events:
  "Shift a b v t \<in> set (inner_events i j s cs) \<longleftrightarrow>
     a = i \<and> j \<le> b \<and> b < j + length cs \<and> v = twoBitVal (cs ! (b - j)) \<and> t = s + 2 * (b - j)"
proof (induction cs arbitrary: j s)
  case Nil
  show ?case by simp
next
  case (Cons c cs)
  have "Shift a b v t \<in> set (inner_events i j s (c # cs)) \<longleftrightarrow>
      (a = i \<and> b = j \<and> v = twoBitVal c \<and> t = s) \<or>
      Shift a b v t \<in> set (inner_events i (Suc j) (s + 2) cs)"
    by auto
  also have "\<dots> \<longleftrightarrow> (a = i \<and> b = j \<and> v = twoBitVal c \<and> t = s) \<or>
      (a = i \<and> Suc j \<le> b \<and> b < Suc j + length cs \<and>
       v = twoBitVal (cs ! (b - Suc j)) \<and> t = s + 2 + 2 * (b - Suc j))"
    by (simp only: Cons.IH)
  also have "\<dots> \<longleftrightarrow> a = i \<and> j \<le> b \<and> b < j + length (c # cs) \<and>
      v = twoBitVal ((c # cs) ! (b - j)) \<and> t = s + 2 * (b - j)"
  proof (cases "b = j")
    case True
    then show ?thesis by auto
  next
    case False
    have "Suc j \<le> b \<Longrightarrow> (c # cs) ! (b - j) = cs ! (b - Suc j)"
    proof -
      assume "Suc j \<le> b"
      then have "b - j = Suc (b - Suc j)"
        by arith
      then show ?thesis
        by simp
    qed
    moreover have "Suc j \<le> b \<Longrightarrow> s + 2 + 2 * (b - Suc j) = s + 2 * (b - j)"
      by arith
    ultimately show ?thesis
      using False by auto
  qed
  finally show ?case .
qed

lemma count_OutWrite_inner_events:
  "count_list (inner_events i j s cs) (OutWrite x) = (if x = i then length cs else 0)"
  by (induction cs arbitrary: j s) auto


lemma nth_word_symbols:
  assumes "n \<le> length seq" and "16 * k \<le> b" and "b < min n (16 * k + 16)"
  shows "word_symbols seq n k ! (b - 16 * k) = seq ! b"
proof -
  have "b - 16 * k < min n (16 * k + 16) - 16 * k" and "16 * k + (b - 16 * k) = b"
    and "16 * k \<le> length seq"
    using assms by auto
  then show ?thesis
    by (simp add: word_symbols_def)
qed

lemma SeqRead_word_events:
  assumes "n \<le> length seq"
  shows "SeqRead x \<in> set (word_events seq n k) \<longleftrightarrow> 16 * k \<le> x \<and> x < min n (16 * k + 16)"
  using assms by (auto simp add: word_events_def SeqRead_inner_events length_word_symbols)

lemma OutRead_word_events:
  "OutRead x \<in> set (word_events seq n k) \<Longrightarrow> x = k"
  by (simp add: word_events_def OutRead_inner_events)

lemma OutWrite_word_events:
  "OutWrite x \<in> set (word_events seq n k) \<longleftrightarrow> x = k"
  by (auto simp add: word_events_def OutWrite_inner_events)

lemma Shift_word_events:
  assumes "n \<le> length seq"
  shows "Shift a b v t \<in> set (word_events seq n k) \<longleftrightarrow>
     a = k \<and> 16 * k \<le> b \<and> b < min n (16 * k + 16) \<and> v = twoBitVal (seq ! b) \<and> t = 2 * (b - 16 * k)"
proof -
  have range: "16 * k \<le> b \<and> b < 16 * k + (min n (16 * k + 16) - 16 * k) \<longleftrightarrow>
      16 * k \<le> b \<and> b < min n (16 * k + 16)"
    by auto
  have "Shift a b v t \<in> set (word_events seq n k) \<longleftrightarrow>
      a = k \<and> (16 * k \<le> b \<and> b < 16 * k + (min n (16 * k + 16) - 16 * k)) \<and>
      v = twoBitVal (word_symbols seq n k ! (b - 16 * k)) \<and> t = 2 * (b - 16 * k)"
    using assms by (simp add: word_events_def Shift_inner_events length_word_symbols)
  also have "\<dots> \<longleftrightarrow> a = k \<and> (16 * k \<le> b \<and> b < min n (16 * k + 16)) \<and>
      v = twoBitVal (word_symbols seq n k ! (b - 16 * k)) \<and> t = 2 * (b - 16 * k)"
    by (simp only: range)
  also have "\<dots> \<longleftrightarrow> a = k \<and> (16 * k \<le> b \<and> b < min n (16 * k + 16)) \<and>
      v = twoBitVal (seq ! b) \<and> t = 2 * (b - 16 * k)"
    using nth_word_symbols [OF assms, of k b] by auto
  finally show ?thesis
    by simp
qed

lemma count_OutWrite_word_events:
  assumes "n \<le> length seq"
  shows "count_list (word_events seq n k) (OutWrite x) =
     (if x = k then 1 + (min n (16 * k + 16) - 16 * k) else 0)"
  using assms by (simp add: word_events_def count_OutWrite_inner_events length_word_symbols)

subsection \<open>Schedules\<close>

lemma is_schedule_set:
  assumes "is_schedule 0 b sched"
  shows "unat ` set sched = {..<unat b}"
proof -
  have "set sched = set (index_range 0 b)"
    using assms by (auto simp: is_schedule_def dest: mset_eq_setD)
  then show ?thesis
    by (simp only: set_unat_index_range)
qed

lemma is_schedule_mset:
  assumes "is_schedule 0 b sched"
  shows "mset (map unat sched) = mset [0..<unat b]"
proof -
  have "mset (map unat sched) = mset (map unat (index_range 0 b))"
    using assms by (simp add: is_schedule_def)
  then show ?thesis
    by (simp only: map_unat_index_range)
qed

lemma is_schedule_index_range: "is_schedule 0 b (index_range 0 b)"
  by (simp add: is_schedule_def)

lemma twoBitCompress_sched_result:
  assumes seq: "unat seqLen \<le> length seq"
    and out: "unat (compressedSeqLen seqLen) \<le> length out"
    and sched: "is_schedule 0 (compressedSeqLen seqLen) sched"
  shows "\<exists>m'. twoBitCompress_sched sched seq seqLen out = Inr m' \<and>
      seq_buf m' = seq \<and>
      length (compressedSeq_buf m') = length out \<and>
      (\<forall>k<length out. compressedSeq_buf m' ! k =
         (if k < unat (compressedSeqLen seqLen) then packed_word seq (unat seqLen) k else out ! k)) \<and>
      trace m' = concat (map (\<lambda>i. word_events seq (unat seqLen) (unat i)) sched)"
proof -
  note s = is_schedule_set [OF sched]
  have "twoBitCompress_sched sched seq seqLen out =
    Inr \<lparr>seq_buf = seq,
         compressedSeq_buf = fold (\<lambda>i buf. buf[unat i := packed_word seq (unat seqLen) (unat i)]) sched out,
         trace = concat (map (\<lambda>i. word_events seq (unat seqLen) (unat i)) sched)\<rparr>"
    using seq out s by (intro twoBitCompress_sched_run) simp_all
  then show ?thesis
    by (simp add: length_fold_update nth_fold_update s)
qed

subsection \<open>The symbol table and the symbols of a word\<close>

text \<open>The codes of the four symbols, and of every other byte.\<close>

lemma twoBitVal_table:
  "twoBitVal CHR ''A'' = 0" "twoBitVal CHR ''C'' = 1" "twoBitVal CHR ''G'' = 2" "twoBitVal CHR ''T'' = 3"
  "c \<notin> {CHR ''A'', CHR ''C'', CHR ''G'', CHR ''T''} \<Longrightarrow> twoBitVal c = 0"
  by (simp_all add: twoBitVal_def)

lemma length_word_symbols_pos:
  assumes "n \<le> length seq" and "16 * i + k < n" and "k < 16"
  shows "k < length (word_symbols seq n i)" and "word_symbols seq n i ! k = seq ! (16 * i + k)"
proof -
  show "k < length (word_symbols seq n i)"
    using assms by (simp add: length_word_symbols)
  show "word_symbols seq n i ! k = seq ! (16 * i + k)"
    using nth_word_symbols [OF assms(1), of i "16 * i + k"] assms by simp
qed

subsection \<open>The whole call, when the size computation does not wrap\<close>

text \<open>
  \<^verbatim>\<open>(seqLen+15)/16\<close> is computed in \<^verbatim>\<open>size_t\<close>. For \<open>seqLen + 15 < 2\<^sup>6\<^sup>4\<close> it is
  \<open>ceil(seqLen/16)\<close> (\<open>unat_compressedSeqLen\<close>); beyond, the sum wraps around and the
  quotient is 0 (\<open>compressedSeqLen_wrap\<close>). Below the bound a call has the closed form
  of \<open>call_closed_form\<close>, and the bound holds whenever the two arrays of the contract,
  \<open>seqLen\<close> bytes and \<open>ceil(seqLen/16)\<close> words of four bytes, lie side by side in the
  \<open>2\<^sup>6\<^sup>4\<close> bytes that a 64-bit \<^verbatim>\<open>size_t\<close> can count (\<open>buffers_in_address_space\<close>).
\<close>

lemma call_closed_form:
  assumes ok: "buffers_ok seq seqLen out"
    and nowrap: "unat seqLen + 15 < 2 ^ 64"
    and sched: "is_schedule 0 (compressedSeqLen seqLen) sched"
  shows "twoBitCompress_sched sched seq seqLen out =
    Inr \<lparr>seq_buf = seq,
         compressedSeq_buf = map (packed_word seq (unat seqLen)) [0..<numWords (unat seqLen)],
         trace = concat (map (\<lambda>i. word_events seq (unat seqLen) (unat i)) sched)\<rparr>"
proof -
  let ?n = "unat seqLen"
  have len: "length seq = ?n" and out: "length out = numWords ?n"
    using ok by (simp_all add: buffers_ok_def)
  have N: "unat (compressedSeqLen seqLen) = numWords ?n"
    using nowrap by (simp add: unat_compressedSeqLen numWords_eq)
  obtain m' where run: "twoBitCompress_sched sched seq seqLen out = Inr m'"
    and s: "seq_buf m' = seq"
    and l: "length (compressedSeq_buf m') = length out"
    and w: "\<forall>k<length out. compressedSeq_buf m' ! k =
         (if k < unat (compressedSeqLen seqLen) then packed_word seq ?n k else out ! k)"
    and t: "trace m' = concat (map (\<lambda>i. word_events seq ?n (unat i)) sched)"
    using twoBitCompress_sched_result [of seqLen seq out sched] sched len out N by auto
  have "compressedSeq_buf m' = map (packed_word seq ?n) [0..<numWords ?n]"
    using l w out N by (intro nth_equalityI) simp_all
  with run s t show ?thesis
    by simp
qed

lemma buffers_in_address_space:
  assumes "buffers_ok seq seqLen out"
    and "length seq + 4 * length out \<le> 2 ^ 64"
  shows "unat seqLen + 15 < 2 ^ 64"
proof (rule ccontr)
  let ?n = "unat seqLen"
  assume "\<not> ?n + 15 < 2 ^ 64"
  then have big: "2 ^ 64 \<le> ?n + 15"
    by simp
  then have "(2 ^ 64 :: nat) div 16 \<le> (?n + 15) div 16"
    by (rule div_le_mono)
  then have "2 ^ 62 \<le> 4 * ((?n + 15) div 16)"
    by simp
  with big have "2 ^ 64 < ?n + 4 * ((?n + 15) div 16)"
    by simp
  with assms show False
    by (simp add: buffers_ok_def numWords_eq)
qed

text \<open>
  \<open>twoBitCompress\<close> is the call under the schedule that takes the indices in increasing
  order, so what holds under every schedule holds for it.
\<close>

lemma twoBitCompress_in_order:
  "twoBitCompress seq seqLen out =
     twoBitCompress_sched (index_range 0 (compressedSeqLen seqLen)) seq seqLen out"
  by (simp add: twoBitCompress_def)

lemma packed_word_codes:
  assumes "map twoBitVal seq' = map twoBitVal seq"
  shows "packed_word seq' n k = packed_word seq n k"
proof -
  have "map twoBitVal (word_symbols seq' n k) = map twoBitVal (word_symbols seq n k)"
    using assms by (simp only: word_symbols_def take_map [symmetric] drop_map [symmetric])
  then show ?thesis
    by (simp add: packed_word_def)
qed

lemma field_of_packed_word:
  assumes "n \<le> length seq" and "p < n"
  shows "take_bit 2 (drop_bit (2 * (p mod 16)) (packed_word seq n (p div 16))) = twoBitVal (seq ! p)"
proof -
  have k: "p mod 16 < 16" and p: "16 * (p div 16) + p mod 16 < n"
    using assms(2) by simp_all
  note sym = length_word_symbols_pos [OF assms(1) p k]
  have "take_bit 2 (drop_bit (2 * (p mod 16)) (pack (map twoBitVal (word_symbols seq n (p div 16))))) =
      twoBitVal (word_symbols seq n (p div 16) ! (p mod 16))"
    using sym(1) k by (rule field_of_pack)
  then show ?thesis
    by (simp add: packed_word_def sym(2))
qed

lemma ceil_not_multiple:
  fixes n :: nat
  assumes "n mod 16 \<noteq> 0"
  shows "(n + 15) div 16 = Suc (n div 16)"
proof -
  define q r where "q = n div 16" and "r = n mod 16"
  have n: "n = 16 * q + r" and r: "0 < r" "r < 16"
    using assms by (simp_all add: q_def r_def)
  have "(n + 15) div 16 = Suc q"
  proof (rule div_nat_eqI)
    show "16 * Suc q \<le> n + 15"
      using n r by simp
    show "n + 15 < 16 * Suc (Suc q)"
      using n r by simp
  qed
  then show ?thesis
    by (simp add: q_def)
qed

subsection \<open>The events of a whole call\<close>

lemma in_trace_iff:
  assumes "is_schedule 0 b sched"
  shows "e \<in> set (concat (map (\<lambda>i. f (unat i)) sched)) \<longleftrightarrow> (\<exists>k<unat b. e \<in> set (f k))"
proof -
  have "e \<in> set (concat (map (\<lambda>i. f (unat i)) sched)) \<longleftrightarrow> (\<exists>k\<in>unat ` set sched. e \<in> set (f k))"
    by auto
  then show ?thesis
    by (simp only: is_schedule_set [OF assms]) auto
qed

lemma count_list_concat:
  "count_list (concat xss) x = sum_list (map (\<lambda>xs. count_list xs x) xss)"
  by (induction xss) simp_all

lemma count_trace:
  assumes "is_schedule 0 b sched"
  shows "count_list (concat (map (\<lambda>i. f (unat i)) sched)) x = (\<Sum>k<unat b. count_list (f k) x)"
proof -
  let ?g = "\<lambda>k. count_list (f k) x"
  have "count_list (concat (map (\<lambda>i. f (unat i)) sched)) x = sum_list (map ?g (map unat sched))"
    by (simp add: count_list_concat comp_def)
  also have "\<dots> = sum_mset (image_mset ?g (mset (map unat sched)))"
    by (simp only: sum_mset_sum_list [symmetric] mset_map)
  also have "\<dots> = sum_mset (image_mset ?g (mset [0..<unat b]))"
    by (simp only: is_schedule_mset [OF assms])
  also have "\<dots> = sum_list (map ?g [0..<unat b])"
    by (simp only: sum_mset_sum_list [symmetric] mset_map)
  also have "\<dots> = (\<Sum>k<unat b. ?g k)"
    by (simp add: interv_sum_list_conv_sum_set_nat atLeast0LessThan)
  finally show ?thesis .
qed

lemma shift_keeps_code:
  assumes "t \<le> 30"
  shows "drop_bit t (push_bit t (twoBitVal c)) = twoBitVal c"
proof (rule bit_eqI)
  fix n
  have "bit (twoBitVal c) n \<Longrightarrow> t + n < 32"
    using assms bit_twoBitVal [of c n] by simp
  then show "bit (drop_bit t (push_bit t (twoBitVal c))) n \<longleftrightarrow> bit (twoBitVal c) n"
    by (auto simp add: bit_drop_bit_eq bit_push_bit_iff)
qed

lemma is_schedule_empty:
  assumes "is_schedule 0 0 sched"
  shows "sched = []"
  using assms by (simp add: is_schedule_def index_range_def)

lemma call_result:
  assumes "length seq = unat seqLen"
    and "numWords (unat seqLen) \<le> length out"
    and "is_schedule 0 (compressedSeqLen seqLen) sched"
  obtains m' where "twoBitCompress_sched sched seq seqLen out = Inr m'"
    and "seq_buf m' = seq"
    and "length (compressedSeq_buf m') = length out"
    and "\<forall>k<length out. compressedSeq_buf m' ! k =
         (if k < unat (compressedSeqLen seqLen) then packed_word seq (unat seqLen) k else out ! k)"
    and "trace m' = concat (map (\<lambda>i. word_events seq (unat seqLen) (unat i)) sched)"
proof -
  have "unat (compressedSeqLen seqLen) \<le> length out"
    using unat_compressedSeqLen_le [of seqLen] assms(2) by simp
  then show ?thesis
    using twoBitCompress_sched_result [of seqLen seq out sched] assms(1,3) that by auto
qed

text \<open>
  The trace leaves nothing out: every position below \<open>seqLen\<close> has its read of the
  sequence, its shift and its read and write of the output word.
\<close>

lemma trace_complete:
  assumes "buffers_ok seq seqLen out"
    and "unat seqLen + 15 < 2 ^ 64"
    and "is_schedule 0 (compressedSeqLen seqLen) sched"
    and "j < unat seqLen"
  shows "\<exists>m'. twoBitCompress_sched sched seq seqLen out = Inr m' \<and>
      SeqRead j \<in> set (trace m') \<and>
      Shift (j div 16) j (twoBitVal (seq ! j)) (2 * (j mod 16)) \<in> set (trace m') \<and>
      OutRead (j div 16) \<in> set (trace m') \<and>
      OutWrite (j div 16) \<in> set (trace m')"
proof -
  let ?n = "unat seqLen" and ?k = "j div 16"
  have len: "?n \<le> length seq"
    using assms(1) by (simp add: buffers_ok_def)
  have N: "unat (compressedSeqLen seqLen) = numWords ?n"
    using assms(2) by (simp add: unat_compressedSeqLen numWords_eq)
  have k: "?k < numWords ?n"
    using assms(4) by (simp add: numWords_eq)
  have range: "16 * ?k \<le> j" "j < min ?n (16 * ?k + 16)" and s: "j - 16 * ?k = j mod 16"
    using assms(4) by (simp_all add: minus_mult_div_eq_mod)
  then have sym: "word_symbols seq ?n ?k \<noteq> []"
    using length_word_symbols [OF len, of ?k] by auto
  have "SeqRead j \<in> set (word_events seq ?n ?k)"
    and "Shift ?k j (twoBitVal (seq ! j)) (2 * (j mod 16)) \<in> set (word_events seq ?n ?k)"
    and "OutRead ?k \<in> set (word_events seq ?n ?k)"
    and "OutWrite ?k \<in> set (word_events seq ?n ?k)"
    using range s sym len
    by (simp_all add: SeqRead_word_events Shift_word_events OutWrite_word_events)
      (simp add: word_events_def OutRead_inner_events)
  moreover have "e \<in> set (concat (map (\<lambda>i. word_events seq ?n (unat i)) sched)) \<longleftrightarrow>
      (\<exists>k<numWords ?n. e \<in> set (word_events seq ?n k))" for e
    using in_trace_iff [OF assms(3), of e "word_events seq ?n"] by (simp only: N)
  ultimately have "SeqRead j \<in> set (concat (map (\<lambda>i. word_events seq ?n (unat i)) sched))"
    and "Shift ?k j (twoBitVal (seq ! j)) (2 * (j mod 16))
      \<in> set (concat (map (\<lambda>i. word_events seq ?n (unat i)) sched))"
    and "OutRead ?k \<in> set (concat (map (\<lambda>i. word_events seq ?n (unat i)) sched))"
    and "OutWrite ?k \<in> set (concat (map (\<lambda>i. word_events seq ?n (unat i)) sched))"
    using k by blast+
  then show ?thesis
    unfolding call_closed_form [OF assms(1-3)] by simp
qed

subsection \<open>One call, step by step\<close>

text \<open>
  The definitions of the model evaluated on the sequence GACT, for an output word \<open>w\<close>
  of any content: the word is set to 0 and then read and written once for each symbol.
\<close>

lemma run_GACT:
  "twoBitCompress ''GACT'' 4 [w] =
     Inr \<lparr>seq_buf = ''GACT'', compressedSeq_buf = [210],
          trace = [OutWrite 0,
                   SeqRead 0, Shift 0 0 2 0, OutRead 0, OutWrite 0,
                   SeqRead 1, Shift 0 1 0 2, OutRead 0, OutWrite 0,
                   SeqRead 2, Shift 0 2 1 4, OutRead 0, OutWrite 0,
                   SeqRead 3, Shift 0 3 3 6, OutRead 0, OutWrite 0]\<rparr>"
  by (simp add: twoBitCompress_def twoBitCompress_sched_def compressedSeqLen_def index_range_def
      lambda_body_def inner_loop.simps inner_body_def twoBitVal_def Let_def)

section \<open>The claims\<close>

text \<open>
  In the theorems below a call is described by the sequence \<open>seq\<close>, the length \<open>seqLen\<close>
  handed over with it, the output array \<open>out\<close> as the caller left it, and a schedule of
  the outer iterations that \<^verbatim>\<open>tbb::parallel_for\<close> may choose. The size computation
  \<^verbatim>\<open>(seqLen+15)/16\<close> is exact as long as \<open>seqLen + 15\<close> does not wrap around in
  \<^verbatim>\<open>size_t\<close>, that is for \<open>seqLen \<le> 2\<^sup>6\<^sup>4 - 16\<close>; theorems that depend on it say so.
  A sequence that is in memory together with its output array is always that short
  (\<open>buffers_in_address_space\<close>). Each theorem is stated for every schedule and so
  holds for \<open>twoBitCompress\<close>, whose schedule is the increasing one
  (\<open>twoBitCompress_in_order\<close>, \<open>is_schedule_index_range\<close>).
\<close>

subsection \<open>Layout of the output words\<close>

text \<open>
  Claim C1. For a sequence of \<open>seqLen\<close> symbols the call returns, and for every position
  \<open>16 * i + k\<close> below \<open>seqLen\<close> with \<open>k < 16\<close> the index \<open>i\<close> is one of the
  \<open>ceil(seqLen/16)\<close> output words and bits \<open>2k\<close> and \<open>2k+1\<close> of word \<open>i\<close> are the two-bit
  code of the symbol at that position. The codes are A = 00, C = 01, G = 10, T = 11
  and 00 for any other byte.
\<close>

theorem word_layout:
  assumes "buffers_ok seq seqLen out"
    and "unat seqLen + 15 < 2 ^ 64"
    and "is_schedule 0 (compressedSeqLen seqLen) sched"
  shows "\<exists>m'. twoBitCompress_sched sched seq seqLen out = Inr m' \<and>
      length (compressedSeq_buf m') = numWords (unat seqLen) \<and>
      (\<forall>i k. k < 16 \<and> 16 * i + k < unat seqLen \<longrightarrow>
         i < numWords (unat seqLen) \<and>
         take_bit 2 (drop_bit (2 * k) (compressedSeq_buf m' ! i)) = twoBitVal (seq ! (16 * i + k))) \<and>
      map twoBitVal ''ACGT'' = [0, 1, 2, 3] \<and>
      (\<forall>c. c \<notin> set ''ACGT'' \<longrightarrow> twoBitVal c = 0)"
proof -
  let ?n = "unat seqLen"
  have len: "length seq = ?n" and out: "length out = numWords ?n"
    using assms(1) by (simp_all add: buffers_ok_def)
  have N: "unat (compressedSeqLen seqLen) = numWords ?n"
    using assms(2) by (simp add: unat_compressedSeqLen numWords_eq)
  have table: "map twoBitVal ''ACGT'' = [0, 1, 2, 3]" "\<forall>c. c \<notin> set ''ACGT'' \<longrightarrow> twoBitVal c = 0"
    by (simp_all add: twoBitVal_def)
  obtain m' where run: "twoBitCompress_sched sched seq seqLen out = Inr m'"
    and l: "length (compressedSeq_buf m') = length out"
    and w: "\<forall>k<length out. compressedSeq_buf m' ! k =
         (if k < unat (compressedSeqLen seqLen) then packed_word seq ?n k else out ! k)"
    using twoBitCompress_sched_result [of seqLen seq out sched] assms(3) len out N by auto
  have fields: "\<forall>i k. k < 16 \<and> 16 * i + k < ?n \<longrightarrow>
      i < numWords ?n \<and>
      take_bit 2 (drop_bit (2 * k) (compressedSeq_buf m' ! i)) = twoBitVal (seq ! (16 * i + k))"
  proof (intro allI impI, elim conjE)
    fix i k
    assume that: "k < 16" "16 * i + k < ?n"
    have i: "i < numWords ?n"
      using that by (simp add: numWords_eq)
    then have "compressedSeq_buf m' ! i = pack (map twoBitVal (word_symbols seq ?n i))"
      using w out N by (simp add: packed_word_def)
    moreover have "k < length (word_symbols seq ?n i)" and "word_symbols seq ?n i ! k = seq ! (16 * i + k)"
      using length_word_symbols_pos [of ?n seq i k] that len by simp_all
    ultimately show "i < numWords ?n \<and>
        take_bit 2 (drop_bit (2 * k) (compressedSeq_buf m' ! i)) = twoBitVal (seq ! (16 * i + k))"
      using i that(1) by (simp add: field_of_pack)
  qed
  have l': "length (compressedSeq_buf m') = numWords ?n"
    using l out by simp
  show ?thesis
    by (rule exI [of _ m']) (intro conjI run l' fields table)
qed


theorem word_layout_witness:
  "buffers_ok ''GACTGACTGACTGACTG'' 17 [5, 7] \<and>
   unat (17 :: size_t) + 15 < 2 ^ 64 \<and>
   is_schedule 0 (compressedSeqLen 17) [1, 0] \<and>
   (\<exists>m'. twoBitCompress_sched [1, 0] ''GACTGACTGACTGACTG'' 17 [5, 7] = Inr m' \<and>
      length (compressedSeq_buf m') = numWords (unat (17 :: size_t)) \<and>
      (\<forall>i k. k < 16 \<and> 16 * i + k < unat (17 :: size_t) \<longrightarrow>
         i < numWords (unat (17 :: size_t)) \<and>
         take_bit 2 (drop_bit (2 * k) (compressedSeq_buf m' ! i)) =
           twoBitVal (''GACTGACTGACTGACTG'' ! (16 * i + k))) \<and>
      map twoBitVal ''ACGT'' = [0, 1, 2, 3] \<and>
      (\<forall>c. c \<notin> set ''ACGT'' \<longrightarrow> twoBitVal c = 0))"
proof -
  have h1: "buffers_ok ''GACTGACTGACTGACTG'' 17 [5, 7]"
    by (simp add: buffers_ok_def numWords_eq)
  have h2: "unat (17 :: size_t) + 15 < 2 ^ 64"
    by simp
  have h3: "is_schedule 0 (compressedSeqLen 17) [1, 0]"
    by (simp add: is_schedule_def compressedSeqLen_def index_range_def upt_rec)
  show ?thesis
    using h1 h2 h3 word_layout [OF h1 h2 h3] by blast
qed

text \<open>
  Claim C2. Encoding the four symbols GACT with \<open>seqLen = 4\<close> takes one output word, and
  whatever that word held before the call, it holds 210 afterwards, which is
  \<open>11010010\<close> in binary.
\<close>

theorem encode_GACT:
  "compressedSeqLen 4 = 1 \<and>
   (\<exists>m'. twoBitCompress ''GACT'' 4 [w] = Inr m' \<and> compressedSeq_buf m' = [210]) \<and>
   (210 :: uint32_t) = 2 ^ 7 + 2 ^ 6 + 2 ^ 4 + 2 ^ 1"
  by (simp add: run_GACT compressedSeqLen_def)

text \<open>
  Claim C3. A byte outside A, C, G, T at position \<open>p\<close> raises no fault; the two bits of
  its position are 00, and the whole output is the one the call produces for the same
  sequence with \<open>A\<close> at position \<open>p\<close>.
\<close>

theorem unknown_symbol_like_A:
  assumes "buffers_ok seq seqLen out"
    and "unat seqLen + 15 < 2 ^ 64"
    and "is_schedule 0 (compressedSeqLen seqLen) sched"
    and "p < length seq"
    and "seq ! p \<notin> {CHR ''A'', CHR ''C'', CHR ''G'', CHR ''T''}"
  shows "\<exists>m' mA. twoBitCompress_sched sched seq seqLen out = Inr m' \<and>
      twoBitCompress_sched sched (seq[p := CHR ''A'']) seqLen out = Inr mA \<and>
      take_bit 2 (drop_bit (2 * (p mod 16)) (compressedSeq_buf m' ! (p div 16))) = 0 \<and>
      compressedSeq_buf m' = compressedSeq_buf mA"
proof -
  let ?n = "unat seqLen" and ?seqA = "seq[p := CHR ''A'']"
  have len: "length seq = ?n"
    using assms(1) by (simp add: buffers_ok_def)
  have zero: "twoBitVal (seq ! p) = 0"
    using assms(5) by (simp add: twoBitVal_table)
  have "map twoBitVal ?seqA = (map twoBitVal seq)[p := map twoBitVal seq ! p]"
    using assms(4) zero by (simp add: map_update twoBitVal_table)
  then have codes: "map twoBitVal ?seqA = map twoBitVal seq"
    by simp
  have okA: "buffers_ok ?seqA seqLen out"
    using assms(1) by (simp add: buffers_ok_def)
  note run = call_closed_form [OF assms(1-3)] and runA = call_closed_form [OF okA assms(2,3)]
  have "p div 16 < numWords ?n"
    using assms(4) len by (simp add: numWords_eq)
  then have "map (packed_word seq ?n) [0..<numWords ?n] ! (p div 16) = packed_word seq ?n (p div 16)"
    by simp
  moreover have "take_bit 2 (drop_bit (2 * (p mod 16)) (packed_word seq ?n (p div 16))) = 0"
    using assms(4) len zero by (simp add: field_of_packed_word)
  moreover have "packed_word ?seqA ?n = packed_word seq ?n"
    by (rule ext) (rule packed_word_codes [OF codes])
  ultimately show ?thesis
    unfolding run runA by simp
qed

theorem unknown_symbol_like_A_witness:
  "buffers_ok ''GANT'' 4 [9] \<and>
   unat (4 :: size_t) + 15 < 2 ^ 64 \<and>
   is_schedule 0 (compressedSeqLen 4) [0] \<and>
   2 < length ''GANT'' \<and>
   ''GANT'' ! 2 \<notin> {CHR ''A'', CHR ''C'', CHR ''G'', CHR ''T''} \<and>
   (\<exists>m' mA. twoBitCompress_sched [0] ''GANT'' 4 [9] = Inr m' \<and>
      twoBitCompress_sched [0] (''GANT''[2 := CHR ''A'']) 4 [9] = Inr mA \<and>
      take_bit 2 (drop_bit (2 * (2 mod 16)) (compressedSeq_buf m' ! (2 div 16))) = 0 \<and>
      compressedSeq_buf m' = compressedSeq_buf mA)"
proof -
  have h1: "buffers_ok ''GANT'' 4 [9]"
    by (simp add: buffers_ok_def numWords_eq)
  have h2: "unat (4 :: size_t) + 15 < 2 ^ 64"
    by simp
  have h3: "is_schedule 0 (compressedSeqLen 4) [0]"
    by (simp add: is_schedule_def compressedSeqLen_def index_range_def)
  have h4: "2 < length ''GANT''"
    by simp
  have h5: "''GANT'' ! 2 \<notin> {CHR ''A'', CHR ''C'', CHR ''G'', CHR ''T''}"
    by simp
  show ?thesis
    using h1 h2 h3 h4 h5 unknown_symbol_like_A [OF h1 h2 h3 h4 h5] by blast
qed

text \<open>
  Claim C5. When \<open>seqLen\<close> is not a multiple of 16, every bit of the last output word
  at a position \<open>b \<ge> 2 * (seqLen mod 16)\<close> is 0 after the call.
\<close>

theorem tail_padding:
  assumes "buffers_ok seq seqLen out"
    and "unat seqLen + 15 < 2 ^ 64"
    and "is_schedule 0 (compressedSeqLen seqLen) sched"
    and "unat seqLen mod 16 \<noteq> 0"
    and "2 * (unat seqLen mod 16) \<le> b"
  shows "\<exists>m'. twoBitCompress_sched sched seq seqLen out = Inr m' \<and>
      compressedSeq_buf m' \<noteq> [] \<and> \<not> bit (last (compressedSeq_buf m')) b"
proof -
  let ?n = "unat seqLen"
  let ?N = "numWords ?n"
  have len: "length seq = ?n"
    using assms(1) by (simp add: buffers_ok_def)
  have N: "?N = Suc (?n div 16)"
    using assms(4) by (simp add: numWords_eq ceil_not_multiple)
  have "length (word_symbols seq ?n (?n div 16)) = min ?n (16 * (?n div 16) + 16) - 16 * (?n div 16)"
    using len by (intro length_word_symbols) simp
  then have "length (word_symbols seq ?n (?N - 1)) = ?n mod 16"
    using N by (simp add: minus_mult_div_eq_mod)
  then have "\<not> bit (packed_word seq ?n (?N - 1)) b"
    using assms(5) by (simp add: packed_word_def pack_high_bits)
  moreover have "last (map (packed_word seq ?n) [0..<?N]) = packed_word seq ?n (?N - 1)"
    using N by (simp add: last_map)
  ultimately show ?thesis
    using N by (simp add: call_closed_form [OF assms(1-3)])
qed

theorem tail_padding_witness:
  "buffers_ok ''GACTT'' 5 [4294967295] \<and>
   unat (5 :: size_t) + 15 < 2 ^ 64 \<and>
   is_schedule 0 (compressedSeqLen 5) [0] \<and>
   unat (5 :: size_t) mod 16 \<noteq> 0 \<and>
   2 * (unat (5 :: size_t) mod 16) \<le> 10 \<and>
   (\<exists>m'. twoBitCompress_sched [0] ''GACTT'' 5 [4294967295] = Inr m' \<and>
      compressedSeq_buf m' \<noteq> [] \<and> \<not> bit (last (compressedSeq_buf m')) 10)"
proof -
  have h1: "buffers_ok ''GACTT'' 5 [4294967295]"
    by (simp add: buffers_ok_def numWords_eq)
  have h2: "unat (5 :: size_t) + 15 < 2 ^ 64"
    by simp
  have h3: "is_schedule 0 (compressedSeqLen 5) [0]"
    by (simp add: is_schedule_def compressedSeqLen_def index_range_def)
  have h4: "unat (5 :: size_t) mod 16 \<noteq> 0"
    by simp
  have h5: "2 * (unat (5 :: size_t) mod 16) \<le> 10"
    by simp
  show ?thesis
    using h1 h2 h3 h4 h5 tail_padding [OF h1 h2 h3 h4 h5] by blast
qed

subsection \<open>Determinism\<close>

text \<open>
  Claim C7. The output depends on the sequence alone: two calls on the same sequence
  into two output arrays, under any two schedules of the outer iterations, return and
  leave the same words in both arrays. The empty sequence is the case \<open>seqLen = 0\<close>
  with empty arrays and the empty schedule.
\<close>

theorem output_determined_by_sequence:
  assumes "buffers_ok seq seqLen out1"
    and "buffers_ok seq seqLen out2"
    and "unat seqLen + 15 < 2 ^ 64"
    and "is_schedule 0 (compressedSeqLen seqLen) sched1"
    and "is_schedule 0 (compressedSeqLen seqLen) sched2"
  shows "\<exists>m1 m2. twoBitCompress_sched sched1 seq seqLen out1 = Inr m1 \<and>
      twoBitCompress_sched sched2 seq seqLen out2 = Inr m2 \<and>
      compressedSeq_buf m1 = compressedSeq_buf m2"
  by (simp add: call_closed_form [OF assms(1,3,4)] call_closed_form [OF assms(2,3,5)])

theorem output_determined_by_sequence_witness:
  "buffers_ok ''GACTGACTGACTGACTG'' 17 [1, 2] \<and>
   buffers_ok ''GACTGACTGACTGACTG'' 17 [3, 4] \<and>
   unat (17 :: size_t) + 15 < 2 ^ 64 \<and>
   is_schedule 0 (compressedSeqLen 17) [0, 1] \<and>
   is_schedule 0 (compressedSeqLen 17) [1, 0] \<and>
   (\<exists>m1 m2. twoBitCompress_sched [0, 1] ''GACTGACTGACTGACTG'' 17 [1, 2] = Inr m1 \<and>
      twoBitCompress_sched [1, 0] ''GACTGACTGACTGACTG'' 17 [3, 4] = Inr m2 \<and>
      compressedSeq_buf m1 = compressedSeq_buf m2)"
proof -
  have h1: "buffers_ok ''GACTGACTGACTGACTG'' 17 [1, 2]"
    by (simp add: buffers_ok_def numWords_eq)
  have h2: "buffers_ok ''GACTGACTGACTGACTG'' 17 [3, 4]"
    by (simp add: buffers_ok_def numWords_eq)
  have h3: "unat (17 :: size_t) + 15 < 2 ^ 64"
    by simp
  have h4: "is_schedule 0 (compressedSeqLen 17) [0, 1]"
    by (simp add: is_schedule_def compressedSeqLen_def index_range_def upt_rec)
  have h5: "is_schedule 0 (compressedSeqLen 17) [1, 0]"
    by (simp add: is_schedule_def compressedSeqLen_def index_range_def upt_rec)
  show ?thesis
    using h1 h2 h3 h4 h5 output_determined_by_sequence [OF h1 h2 h3 h4 h5] by blast
qed

subsection \<open>Number of output words\<close>

text \<open>
  Claim C4, as it is stated, at the largest value of \<^verbatim>\<open>size_t\<close>: \<open>seqLen + 15\<close> wraps
  around to 14, the code computes 0 words where \<open>ceil(seqLen/16)\<close> is \<open>2\<^sup>6\<^sup>0\<close>, and the
  call returns at once, before it looks at either array.
\<close>

theorem word_count_wraps:
  "compressedSeqLen 18446744073709551615 = 0 \<and>
   numWords (unat (18446744073709551615 :: size_t)) = 1152921504606846976 \<and>
   twoBitCompress [] 18446744073709551615 [] = Inr \<lparr>seq_buf = [], compressedSeq_buf = [], trace = []\<rparr>"
  by (simp add: compressedSeqLen_def numWords_eq twoBitCompress_def twoBitCompress_sched_def
      index_range_def)

text \<open>
  Claim C4, amended. For every \<open>seqLen\<close> with \<open>seqLen + 15 < 2\<^sup>6\<^sup>4\<close> the code computes
  \<open>ceil(seqLen/16)\<close> words, the call returns, and the indices it writes are exactly
  those below that number; \<open>seqLen = 0\<close> writes nothing. For \<open>seqLen\<close> of 0, 1, 15, 16
  and 17 the numbers of words are 0, 1, 1, 1 and 2.
\<close>

theorem word_count:
  assumes "buffers_ok seq seqLen out"
    and "unat seqLen + 15 < 2 ^ 64"
    and "is_schedule 0 (compressedSeqLen seqLen) sched"
  shows "unat (compressedSeqLen seqLen) = numWords (unat seqLen) \<and>
    (\<exists>m'. twoBitCompress_sched sched seq seqLen out = Inr m' \<and>
       length (compressedSeq_buf m') = numWords (unat seqLen) \<and>
       {i. OutWrite i \<in> set (trace m')} = {..<numWords (unat seqLen)} \<and>
       (seqLen = 0 \<longrightarrow> trace m' = [] \<and> compressedSeq_buf m' = out)) \<and>
    map (\<lambda>n. unat (compressedSeqLen n)) [0, 1, 15, 16, 17] = [0, 1, 1, 1, 2]"
proof -
  let ?n = "unat seqLen"
  have N: "unat (compressedSeqLen seqLen) = numWords ?n"
    using assms(2) by (simp add: unat_compressedSeqLen numWords_eq)
  have out: "length out = numWords ?n"
    using assms(1) by (simp add: buffers_ok_def)
  note run = call_closed_form [OF assms]
  have "OutWrite i \<in> set (concat (map (\<lambda>i. word_events seq ?n (unat i)) sched)) \<longleftrightarrow> i < numWords ?n" for i
    unfolding in_trace_iff [OF assms(3)] by (simp add: OutWrite_word_events N)
  then have written: "{i. OutWrite i \<in> set (concat (map (\<lambda>i. word_events seq ?n (unat i)) sched))} =
      {..<numWords ?n}"
    by auto
  have empty: "sched = [] \<and> out = []" if "seqLen = 0"
    using that assms(3) out by (simp add: compressedSeqLen_def is_schedule_empty numWords_eq)
  have table: "map (\<lambda>n. unat (compressedSeqLen n)) [0, 1, 15, 16, 17] = [0, 1, 1, 1, 2]"
    by (simp add: compressedSeqLen_def)
  show ?thesis
    unfolding run using N written empty table by (simp add: numWords_eq)
qed

theorem word_count_witness:
  "buffers_ok [] 0 [] \<and> unat (0 :: size_t) + 15 < 2 ^ 64 \<and> is_schedule 0 (compressedSeqLen 0) [] \<and>
   unat (compressedSeqLen 0) = numWords (unat (0 :: size_t)) \<and>
   (\<exists>m'. twoBitCompress_sched [] [] 0 [] = Inr m' \<and>
      length (compressedSeq_buf m') = numWords (unat (0 :: size_t)) \<and>
      {i. OutWrite i \<in> set (trace m')} = {..<numWords (unat (0 :: size_t))} \<and>
      trace m' = [] \<and> compressedSeq_buf m' = []) \<and>
   buffers_ok ''GACTGACTGACTGACTG'' 17 [5, 7] \<and> unat (17 :: size_t) + 15 < 2 ^ 64 \<and>
   is_schedule 0 (compressedSeqLen 17) [1, 0] \<and>
   unat (compressedSeqLen 17) = numWords (unat (17 :: size_t)) \<and>
   (\<exists>m'. twoBitCompress_sched [1, 0] ''GACTGACTGACTGACTG'' 17 [5, 7] = Inr m' \<and>
      length (compressedSeq_buf m') = numWords (unat (17 :: size_t)) \<and>
      {i. OutWrite i \<in> set (trace m')} = {..<numWords (unat (17 :: size_t))})"
proof -
  have a1: "buffers_ok [] 0 []"
    by (simp add: buffers_ok_def numWords_eq)
  have a2: "unat (0 :: size_t) + 15 < 2 ^ 64"
    by simp
  have a3: "is_schedule 0 (compressedSeqLen 0) []"
    by (simp add: is_schedule_def compressedSeqLen_def index_range_def)
  have b1: "buffers_ok ''GACTGACTGACTGACTG'' 17 [5, 7]"
    by (simp add: buffers_ok_def numWords_eq)
  have b2: "unat (17 :: size_t) + 15 < 2 ^ 64"
    by simp
  have b3: "is_schedule 0 (compressedSeqLen 17) [1, 0]"
    by (simp add: is_schedule_def compressedSeqLen_def index_range_def upt_rec)
  show ?thesis
    using a1 a2 a3 b1 b2 b3 word_count [OF a1 a2 a3] word_count [OF b1 b2 b3] by blast
qed

subsection \<open>Writes to the output words\<close>

text \<open>
  Claim C6, as it is stated, on the sequence GACT: the only output word is written five
  times, not once. The code has no local accumulator; it stores 0 into
  \<^verbatim>\<open>compressedSeq[i]\<close> and then ORs every code into \<^verbatim>\<open>compressedSeq[i]\<close> itself
  (see \<open>run_GACT\<close>).
\<close>

theorem one_write_per_word_fails:
  "write_count (twoBitCompress ''GACT'' 4 [0]) 0 = 5"
  by (simp add: write_count_def run_GACT)

text \<open>
  Claim C6, amended. For \<open>seqLen + 15 < 2\<^sup>6\<^sup>4\<close> the call returns, and the word with index
  \<open>i < ceil(seqLen/16)\<close> is written once for the initial 0 and once more for each of its
  \<open>min seqLen (16 * i + 16) - 16 * i\<close> symbols; no other index is written.
\<close>

theorem writes_per_word:
  assumes "buffers_ok seq seqLen out"
    and "unat seqLen + 15 < 2 ^ 64"
    and "is_schedule 0 (compressedSeqLen seqLen) sched"
  shows "(\<exists>m'. twoBitCompress_sched sched seq seqLen out = Inr m') \<and>
    (\<forall>i. write_count (twoBitCompress_sched sched seq seqLen out) i =
       (if i < numWords (unat seqLen) then 1 + (min (unat seqLen) (16 * i + 16) - 16 * i) else 0))"
proof -
  let ?n = "unat seqLen"
  have N: "unat (compressedSeqLen seqLen) = numWords ?n"
    using assms(2) by (simp add: unat_compressedSeqLen numWords_eq)
  have len: "?n \<le> length seq"
    using assms(1) by (simp add: buffers_ok_def)
  note run = call_closed_form [OF assms]
  have "count_list (concat (map (\<lambda>i. word_events seq ?n (unat i)) sched)) (OutWrite i) =
      (if i < numWords ?n then 1 + (min ?n (16 * i + 16) - 16 * i) else 0)" for i
  proof -
    have "count_list (concat (map (\<lambda>i. word_events seq ?n (unat i)) sched)) (OutWrite i) =
        (\<Sum>k<numWords ?n. if k = i then 1 + (min ?n (16 * k + 16) - 16 * k) else 0)"
      using len by (simp add: count_trace [OF assms(3)] N count_OutWrite_word_events eq_commute)
    also have "\<dots> = (if i < numWords ?n then 1 + (min ?n (16 * i + 16) - 16 * i) else 0)"
      by (simp only: sum.delta finite_lessThan lessThan_iff)
    finally show ?thesis .
  qed
  then show ?thesis
    unfolding run by (simp add: write_count_def)
qed

theorem writes_per_word_witness:
  "buffers_ok ''GACTGACTGACTGACTG'' 17 [5, 7] \<and> unat (17 :: size_t) + 15 < 2 ^ 64 \<and>
   is_schedule 0 (compressedSeqLen 17) [1, 0] \<and>
   (\<exists>m'. twoBitCompress_sched [1, 0] ''GACTGACTGACTGACTG'' 17 [5, 7] = Inr m') \<and>
   write_count (twoBitCompress_sched [1, 0] ''GACTGACTGACTGACTG'' 17 [5, 7]) 0 = 17 \<and>
   write_count (twoBitCompress_sched [1, 0] ''GACTGACTGACTGACTG'' 17 [5, 7]) 1 = 2 \<and>
   write_count (twoBitCompress_sched [1, 0] ''GACTGACTGACTGACTG'' 17 [5, 7]) 2 = 0"
proof -
  have b1: "buffers_ok ''GACTGACTGACTGACTG'' 17 [5, 7]"
    by (simp add: buffers_ok_def numWords_eq)
  have b2: "unat (17 :: size_t) + 15 < 2 ^ 64"
    by simp
  have b3: "is_schedule 0 (compressedSeqLen 17) [1, 0]"
    by (simp add: is_schedule_def compressedSeqLen_def index_range_def upt_rec)
  show ?thesis
    using b1 b2 b3 writes_per_word [OF b1 b2 b3] by (simp add: numWords_eq)
qed

subsection \<open>Frame and bounds\<close>

text \<open>
  Claim C8. The call returns with the input sequence as it was; the output array keeps
  its length, and its words from index \<open>ceil(seqLen/16)\<close> on, if the caller's array has
  any, keep their values. The memory of the model is the two arrays: there is nothing
  else a call could change.
\<close>

theorem only_output_words_change:
  assumes "length seq = unat seqLen"
    and "numWords (unat seqLen) \<le> length out"
    and "is_schedule 0 (compressedSeqLen seqLen) sched"
  shows "\<exists>m'. twoBitCompress_sched sched seq seqLen out = Inr m' \<and>
      seq_buf m' = seq \<and>
      length (compressedSeq_buf m') = length out \<and>
      drop (numWords (unat seqLen)) (compressedSeq_buf m') = drop (numWords (unat seqLen)) out"
proof -
  obtain m' where run: "twoBitCompress_sched sched seq seqLen out = Inr m'"
    and s: "seq_buf m' = seq"
    and l: "length (compressedSeq_buf m') = length out"
    and w: "\<forall>k<length out. compressedSeq_buf m' ! k =
         (if k < unat (compressedSeqLen seqLen) then packed_word seq (unat seqLen) k else out ! k)"
    using assms by (rule call_result)
  have "drop (numWords (unat seqLen)) (compressedSeq_buf m') = drop (numWords (unat seqLen)) out"
    using l w unat_compressedSeqLen_le [of seqLen] by (intro nth_equalityI) simp_all
  with run s l show ?thesis
    by simp
qed

theorem only_output_words_change_witness:
  "length ''GACTGACTGACTGACTG'' = unat (17 :: size_t) \<and>
   numWords (unat (17 :: size_t)) \<le> length [5, 7, 9 :: uint32_t] \<and>
   is_schedule 0 (compressedSeqLen 17) [1, 0] \<and>
   (\<exists>m'. twoBitCompress_sched [1, 0] ''GACTGACTGACTGACTG'' 17 [5, 7, 9] = Inr m' \<and>
      seq_buf m' = ''GACTGACTGACTGACTG'' \<and>
      length (compressedSeq_buf m') = length [5, 7, 9 :: uint32_t] \<and>
      drop (numWords (unat (17 :: size_t))) (compressedSeq_buf m') =
        drop (numWords (unat (17 :: size_t))) [5, 7, 9])"
proof -
  have b1: "length ''GACTGACTGACTGACTG'' = unat (17 :: size_t)"
    by simp
  have b2: "numWords (unat (17 :: size_t)) \<le> length [5, 7, 9 :: uint32_t]"
    by (simp add: numWords_eq)
  have b3: "is_schedule 0 (compressedSeqLen 17) [1, 0]"
    by (simp add: is_schedule_def compressedSeqLen_def index_range_def upt_rec)
  show ?thesis
    using b1 b2 b3 only_output_words_change [OF b1 b2 b3] by blast
qed

text \<open>
  Claim C9. With an input of \<open>seqLen\<close> symbols and an output array of
  \<open>ceil(seqLen/16)\<close> words the call returns without a fault; every read of the
  input is at an index below \<open>seqLen\<close>, and every read and write of the output at an
  index below \<open>ceil(seqLen/16)\<close>.
\<close>

theorem accesses_in_bounds:
  assumes "buffers_ok seq seqLen out"
    and "is_schedule 0 (compressedSeqLen seqLen) sched"
  shows "\<exists>m'. twoBitCompress_sched sched seq seqLen out = Inr m' \<and>
      (\<forall>j. SeqRead j \<in> set (trace m') \<longrightarrow> j < unat seqLen) \<and>
      (\<forall>i. OutRead i \<in> set (trace m') \<longrightarrow> i < numWords (unat seqLen)) \<and>
      (\<forall>i. OutWrite i \<in> set (trace m') \<longrightarrow> i < numWords (unat seqLen))"
proof -
  let ?n = "unat seqLen"
  have len: "length seq = ?n" and out: "numWords ?n \<le> length out"
    using assms(1) by (simp_all add: buffers_ok_def)
  obtain m' where run: "twoBitCompress_sched sched seq seqLen out = Inr m'"
    and t: "trace m' = concat (map (\<lambda>i. word_events seq ?n (unat i)) sched)"
    using len out assms(2) by (rule call_result)
  have ev: "e \<in> set (trace m') \<longleftrightarrow> (\<exists>k<unat (compressedSeqLen seqLen). e \<in> set (word_events seq ?n k))" for e
    unfolding t by (rule in_trace_iff [OF assms(2)])
  note le = unat_compressedSeqLen_le [of seqLen]
  have "\<forall>j. SeqRead j \<in> set (trace m') \<longrightarrow> j < ?n"
    using len by (auto simp add: ev SeqRead_word_events)
  moreover have "\<forall>i. OutRead i \<in> set (trace m') \<longrightarrow> i < numWords ?n"
    using le by (auto simp add: ev dest: OutRead_word_events)
  moreover have "\<forall>i. OutWrite i \<in> set (trace m') \<longrightarrow> i < numWords ?n"
    using le by (auto simp add: ev OutWrite_word_events)
  ultimately show ?thesis
    using run by simp
qed

theorem accesses_in_bounds_witness:
  "buffers_ok ''GACTGACTGACTGACTG'' 17 [5, 7] \<and>
   is_schedule 0 (compressedSeqLen 17) [1, 0] \<and>
   (\<exists>m'. twoBitCompress_sched [1, 0] ''GACTGACTGACTGACTG'' 17 [5, 7] = Inr m' \<and>
      (\<forall>j. SeqRead j \<in> set (trace m') \<longrightarrow> j < unat (17 :: size_t)) \<and>
      (\<forall>i. OutRead i \<in> set (trace m') \<longrightarrow> i < numWords (unat (17 :: size_t))) \<and>
      (\<forall>i. OutWrite i \<in> set (trace m') \<longrightarrow> i < numWords (unat (17 :: size_t))))"
proof -
  have b1: "buffers_ok ''GACTGACTGACTGACTG'' 17 [5, 7]"
    by (simp add: buffers_ok_def numWords_eq)
  have b3: "is_schedule 0 (compressedSeqLen 17) [1, 0]"
    by (simp add: is_schedule_def compressedSeqLen_def index_range_def upt_rec)
  show ?thesis
    using b1 b3 accesses_in_bounds [OF b1 b3] by blast
qed

text \<open>
  Claim C10. Every shift \<^verbatim>\<open>twoBitVal << shift\<close> the call executes, in word \<open>i\<close> at position
  \<open>j\<close>, has \<open>shift = 2 * (j - 16 * i)\<close>, which is at most 30, and shifting back returns
  the code: no bit of it is lost.
\<close>

theorem shifts_within_width:
  assumes "buffers_ok seq seqLen out"
    and "is_schedule 0 (compressedSeqLen seqLen) sched"
  shows "\<exists>m'. twoBitCompress_sched sched seq seqLen out = Inr m' \<and>
      (\<forall>i j v s. Shift i j v s \<in> set (trace m') \<longrightarrow>
         16 * i \<le> j \<and> s = 2 * (j - 16 * i) \<and> s \<le> 30 \<and>
         v = twoBitVal (seq ! j) \<and> drop_bit s (push_bit s v) = v)"
proof -
  let ?n = "unat seqLen"
  have len: "length seq = ?n" and out: "numWords ?n \<le> length out"
    using assms(1) by (simp_all add: buffers_ok_def)
  obtain m' where run: "twoBitCompress_sched sched seq seqLen out = Inr m'"
    and t: "trace m' = concat (map (\<lambda>i. word_events seq ?n (unat i)) sched)"
    using len out assms(2) by (rule call_result)
  have ev: "e \<in> set (trace m') \<longleftrightarrow> (\<exists>k<unat (compressedSeqLen seqLen). e \<in> set (word_events seq ?n k))" for e
    unfolding t by (rule in_trace_iff [OF assms(2)])
  have "16 * i \<le> j \<and> s = 2 * (j - 16 * i) \<and> s \<le> 30 \<and>
      v = twoBitVal (seq ! j) \<and> drop_bit s (push_bit s v) = v"
    if "Shift i j v s \<in> set (trace m')" for i j v s
  proof -
    from that obtain k where "Shift i j v s \<in> set (word_events seq ?n k)"
      by (auto simp add: ev)
    then have i: "16 * i \<le> j" and j: "j < 16 * i + 16" and v: "v = twoBitVal (seq ! j)"
      and s: "s = 2 * (j - 16 * i)"
      using len by (simp_all add: Shift_word_events)
    from i j s have "s \<le> 30"
      by simp
    with i s v show ?thesis
      by (simp add: shift_keeps_code)
  qed
  with run show ?thesis
    by blast
qed

theorem shifts_within_width_witness:
  "buffers_ok ''GACTGACTGACTGACTG'' 17 [5, 7] \<and>
   is_schedule 0 (compressedSeqLen 17) [1, 0] \<and>
   (\<exists>m'. twoBitCompress_sched [1, 0] ''GACTGACTGACTGACTG'' 17 [5, 7] = Inr m' \<and>
      (\<forall>i j v s. Shift i j v s \<in> set (trace m') \<longrightarrow>
         16 * i \<le> j \<and> s = 2 * (j - 16 * i) \<and> s \<le> 30 \<and>
         v = twoBitVal (''GACTGACTGACTGACTG'' ! j) \<and> drop_bit s (push_bit s v) = v))"
proof -
  have b1: "buffers_ok ''GACTGACTGACTGACTG'' 17 [5, 7]"
    by (simp add: buffers_ok_def numWords_eq)
  have b3: "is_schedule 0 (compressedSeqLen 17) [1, 0]"
    by (simp add: is_schedule_def compressedSeqLen_def index_range_def upt_rec)
  show ?thesis
    using b1 b3 shifts_within_width [OF b1 b3] by blast
qed

end
